theory Spec2Isabelle
  imports Main "HOL-Library.Sublist"
begin

section \<open>Shared data: rows, exceptions, the output file\<close>

text \<open>
  The repository holds three independent scripts: \<^verbatim>\<open>bs4-demo/main.py\<close> (books, plain
  HTTP), \<^verbatim>\<open>selenium-demo/main.py\<close> (quotes, browser session with a next-page click) and
  \<^verbatim>\<open>selenium-demo/bluesky.py\<close> (one page of posts). Each removes its output file,
  reads pages, and appends one CSV row per record.

  The web pages, the browser and the file system are external: what they answer is an
  input of the model. A CSV row is the list of its fields. Python exceptions are values
  of \<open>error\<close>; a statement that may raise returns the exception together with the state
  reached so far, since nothing is undone when an exception is raised.
\<close>

type_synonym row = "string list"

datatype error =
    OSError
  | RequestException
  | IndexError
  | TypeError
  | AttributeError
  | WebDriverException
  | NoSuchElementException
  | TimeoutException

text \<open>
  The file system's answers: whether \<^verbatim>\<open>os.remove\<close> of an existing output file
  succeeds, and whether appending to a file that holds the given rows succeeds (a refused
  append leaves the file as it was). The output file itself is \<open>None\<close> when the path does
  not exist, and \<open>Some rows\<close> otherwise.
\<close>

record filesys =
  removable :: bool
  writable :: "row list \<Rightarrow> bool"

type_synonym csv_file = "row list option"

definition rows_of :: "csv_file \<Rightarrow> row list" where
  "rows_of f = (case f of None \<Rightarrow> [] | Some rs \<Rightarrow> rs)"

text \<open>
  \<^verbatim>\<open>if os.path.exists(p): os.remove(p)\<close>, the first file operation of all three
  scripts.
\<close>

definition remove_output :: "filesys \<Rightarrow> csv_file \<Rightarrow> error + csv_file" where
  "remove_output fs f =
     (case f of
        None \<Rightarrow> Inr None
      | Some rs \<Rightarrow> if removable fs then Inr None else Inl OSError)"

text \<open>
  \<^verbatim>\<open>with open(p, 'a', ...) as f: csv.writer(f).writerow(r)\<close>, the row write of the
  two browser scripts: no header is written.
\<close>

definition append_row :: "filesys \<Rightarrow> csv_file \<Rightarrow> row \<Rightarrow> error + csv_file" where
  "append_row fs f r =
     (if writable fs (rows_of f) then Inr (Some (rows_of f @ [r])) else Inl OSError)"


section \<open>The books script (\<^verbatim>\<open>bs4-demo/main.py\<close>)\<close>

text \<open>
  A book is one \<^verbatim>\<open>article\<close> element of class \<^verbatim>\<open>product_pod\<close>, seen through
  the three lookups the script makes on it:
  \<^item> \<open>title_anchor\<close>: \<^verbatim>\<open>book.find("a", attrs={'title': True})\<close>, \<open>None\<close> when
    nothing matches, else the \<^verbatim>\<open>title\<close> attribute of the first match;
  \<^item> \<open>price_elem\<close>: \<^verbatim>\<open>book.find("p", class_="price_color")\<close>, \<open>None\<close> or the
    text of the first match;
  \<^item> \<open>rating_elem\<close>: \<^verbatim>\<open>book.find("p", class_="star-rating")\<close>, \<open>None\<close> or the
    list of classes of the first match.
  \<^verbatim>\<open>requests.get\<close> either raises or returns a response whose parsed body holds a
  list of books (an error page holds none).
\<close>

record book =
  title_anchor :: "string option"
  price_elem :: "string option"
  rating_elem :: "string list option"

datatype response = ConnectionFailed | Html "book list"

type_synonym web = "nat \<Rightarrow> response"

record bstate =
  bcsv :: csv_file
  fetched :: "nat list"
  pages_done :: "nat list"

definition n_pages :: nat where
  "n_pages = 50"

definition header :: row where
  "header = [''Title'', ''Price'', ''Rating'']"

text \<open>
  Lines 25 to 27. \<^verbatim>\<open>None['title']\<close> and \<^verbatim>\<open>None["class"]\<close> raise TypeError,
  \<^verbatim>\<open>None.text\<close> raises AttributeError, and \<^verbatim>\<open>[...][1]\<close> on a list of fewer
  than two classes raises IndexError.
\<close>

definition book_fields :: "book \<Rightarrow> error + row" where
  "book_fields b =
     (case title_anchor b of
        None \<Rightarrow> Inl TypeError
      | Some title \<Rightarrow>
          (case price_elem b of
             None \<Rightarrow> Inl AttributeError
           | Some price \<Rightarrow>
               (case rating_elem b of
                  None \<Rightarrow> Inl TypeError
                | Some classes \<Rightarrow>
                    if length classes \<le> 1 then Inl IndexError
                    else Inr [title, price, classes ! 1])))"

text \<open>
  Lines 29 to 34: the file is opened for appending, the header is written when the
  position is 0 (the file is empty or new), then the row.
\<close>

definition append_book :: "filesys \<Rightarrow> csv_file \<Rightarrow> row \<Rightarrow> error + csv_file" where
  "append_book fs f r =
     (if writable fs (rows_of f)
      then Inr (Some (if rows_of f = [] then [header, r] else rows_of f @ [r]))
      else Inl OSError)"

text \<open>The loop \<^verbatim>\<open>for book in books\<close>.\<close>

fun books_loop :: "filesys \<Rightarrow> book list \<Rightarrow> csv_file \<Rightarrow> error option \<times> csv_file" where
  "books_loop fs [] f = (None, f)"
| "books_loop fs (b # bs) f =
     (case book_fields b of
        Inl e \<Rightarrow> (Some e, f)
      | Inr r \<Rightarrow>
          (case append_book fs f r of
             Inl e \<Rightarrow> (Some e, f)
           | Inr f' \<Rightarrow> books_loop fs bs f'))"

text \<open>
  The body of the page loop, lines 15 to 37: fetch, \<^verbatim>\<open>print(books[0])\<close> (IndexError
  on a page without books), the book loop, \<^verbatim>\<open>print(f"Page {n} done")\<close>.
\<close>

definition scrape_page :: "filesys \<Rightarrow> web \<Rightarrow> nat \<Rightarrow> bstate \<Rightarrow> error option \<times> bstate" where
  "scrape_page fs w n s =
     (let s1 = s\<lparr>fetched := fetched s @ [n]\<rparr> in
      case w n of
        ConnectionFailed \<Rightarrow> (Some RequestException, s1)
      | Html books \<Rightarrow>
          if books = [] then (Some IndexError, s1)
          else (case books_loop fs books (bcsv s1) of
                  (Some e, f) \<Rightarrow> (Some e, s1\<lparr>bcsv := f\<rparr>)
                | (None, f) \<Rightarrow> (None, s1\<lparr>bcsv := f, pages_done := pages_done s1 @ [n]\<rparr>)))"

text \<open>The loop \<^verbatim>\<open>for n in range(1, n_pages + 1)\<close>, over the list of its indices.\<close>

fun pages_loop :: "filesys \<Rightarrow> web \<Rightarrow> nat list \<Rightarrow> bstate \<Rightarrow> error option \<times> bstate" where
  "pages_loop fs w [] s = (None, s)"
| "pages_loop fs w (n # ns) s =
     (case scrape_page fs w n s of
        (Some e, s') \<Rightarrow> (Some e, s')
      | (None, s') \<Rightarrow> pages_loop fs w ns s')"

text \<open>
  The whole script, for a page count \<open>k\<close> (the script's own is \<open>n_pages\<close>) and the
  output file \<open>f0\<close> found at the start. No statement is inside a \<^verbatim>\<open>try\<close>: the first
  exception ends the program.
\<close>

definition books_main :: "filesys \<Rightarrow> web \<Rightarrow> nat \<Rightarrow> csv_file \<Rightarrow> error option \<times> bstate" where
  "books_main fs w k f0 =
     (case remove_output fs f0 of
        Inl e \<Rightarrow> (Some e, \<lparr>bcsv = f0, fetched = [], pages_done = []\<rparr>)
      | Inr f \<Rightarrow> pages_loop fs w [1..<k + 1] \<lparr>bcsv = f, fetched = [], pages_done = []\<rparr>)"


section \<open>The quotes script (\<^verbatim>\<open>selenium-demo/main.py\<close>)\<close>

text \<open>
  A quote is one element of class \<^verbatim>\<open>quote\<close>, seen through the two lookups made on
  it: \<^verbatim>\<open>find_element(By.CLASS_NAME, "text")\<close> and
  \<^verbatim>\<open>find_element(By.CLASS_NAME, "author")\<close>, each \<open>None\<close> when the lookup raises
  NoSuchElementException and the element's text otherwise. A page of the site holds its
  quotes and, when the chain pager / next / a resolves, the page the click leads to.
\<close>

record quote =
  quote_text :: "string option"
  quote_author :: "string option"

datatype page = Page (quotes: "quote list") (next_link: "page option")

text \<open>
  What a run leaves behind: the output file, the page numbers announced by
  \<^verbatim>\<open>print(f">> scraping page {page}...")\<close>, how often the navigation statement of
  lines 38 to 41 was executed, the exceptions printed by the handler, and how often
  \<^verbatim>\<open>driver.quit()\<close> was called.
\<close>

record qstate =
  qcsv :: csv_file
  scraping :: "nat list"
  advances :: nat
  qprinted :: "error list"
  qquits :: nat

definition quotes_n :: nat where
  "quotes_n = 3"

text \<open>Lines 31 and 32, and the row \<^verbatim>\<open>[author, text]\<close> of line 36.\<close>

definition quote_fields :: "quote \<Rightarrow> error + row" where
  "quote_fields q =
     (case quote_text q of
        None \<Rightarrow> Inl NoSuchElementException
      | Some text \<Rightarrow>
          (case quote_author q of
             None \<Rightarrow> Inl NoSuchElementException
           | Some author \<Rightarrow> Inr [author, text]))"

text \<open>The loop \<^verbatim>\<open>for i, quote in enumerate(quotes, 1)\<close>.\<close>

fun quotes_loop :: "filesys \<Rightarrow> quote list \<Rightarrow> csv_file \<Rightarrow> error option \<times> csv_file" where
  "quotes_loop fs [] f = (None, f)"
| "quotes_loop fs (q # qs) f =
     (case quote_fields q of
        Inl e \<Rightarrow> (Some e, f)
      | Inr r \<Rightarrow>
          (case append_row fs f r of
             Inl e \<Rightarrow> (Some e, f)
           | Inr f' \<Rightarrow> quotes_loop fs qs f'))"

text \<open>
  The loop \<^verbatim>\<open>for page in range(1, n + 1)\<close> on the page \<open>pg\<close> the browser shows: the
  quotes, then the click on the next-page link, then the test \<^verbatim>\<open>if page >= n: break\<close>.
\<close>

fun qpages_loop :: "filesys \<Rightarrow> nat \<Rightarrow> nat list \<Rightarrow> page \<Rightarrow> qstate \<Rightarrow> error option \<times> qstate" where
  "qpages_loop fs n [] pg s = (None, s)"
| "qpages_loop fs n (p # ps) pg s =
     (let s1 = s\<lparr>scraping := scraping s @ [p]\<rparr> in
      case quotes_loop fs (quotes pg) (qcsv s1) of
        (Some e, f) \<Rightarrow> (Some e, s1\<lparr>qcsv := f\<rparr>)
      | (None, f) \<Rightarrow>
          (let s2 = s1\<lparr>qcsv := f, advances := advances s1 + 1\<rparr> in
           case next_link pg of
             None \<Rightarrow> (Some NoSuchElementException, s2)
           | Some pg' \<Rightarrow> if p \<ge> n then (None, s2) else qpages_loop fs n ps pg' s2))"

text \<open>
  The body of the \<^verbatim>\<open>try\<close>, lines 21 to 46; \<open>entry\<close> is what \<^verbatim>\<open>driver.get\<close> loads,
  \<open>None\<close> when it raises.
\<close>

definition quotes_try :: "filesys \<Rightarrow> page option \<Rightarrow> nat \<Rightarrow> qstate \<Rightarrow> error option \<times> qstate" where
  "quotes_try fs entry n s =
     (case entry of
        None \<Rightarrow> (Some WebDriverException, s)
      | Some pg \<Rightarrow> qpages_loop fs n [1..<n + 1] pg s)"

text \<open>
  The whole script once the driver exists (line 14), for a page count \<open>n\<close> (the script's
  own is \<open>quotes_n\<close>): the removal of the old output in front of the \<^verbatim>\<open>try\<close>, the
  \<^verbatim>\<open>try\<close>, the handler \<^verbatim>\<open>except Exception as e\<close> that prints, and
  \<^verbatim>\<open>finally: driver.quit()\<close>. The first component is the exception that leaves the
  program.
\<close>

definition quotes_start :: "csv_file \<Rightarrow> qstate" where
  "quotes_start f = \<lparr>qcsv = f, scraping = [], advances = 0, qprinted = [], qquits = 0\<rparr>"

definition quotes_except :: "error option \<times> qstate \<Rightarrow> qstate" where
  "quotes_except rs =
     (case fst rs of
        None \<Rightarrow> snd rs
      | Some e \<Rightarrow> (snd rs)\<lparr>qprinted := qprinted (snd rs) @ [e]\<rparr>)"

definition quotes_main :: "filesys \<Rightarrow> page option \<Rightarrow> nat \<Rightarrow> csv_file \<Rightarrow> error option \<times> qstate" where
  "quotes_main fs entry n f0 =
     (case remove_output fs f0 of
        Inl e \<Rightarrow> (Some e, quotes_start f0)
      | Inr f \<Rightarrow>
          (let s = quotes_except (quotes_try fs entry n (quotes_start f))
           in (None, s\<lparr>qquits := qquits s + 1\<rparr>)))"


section \<open>The Bluesky script (\<^verbatim>\<open>selenium-demo/bluesky.py\<close>)\<close>

text \<open>
  A post is one element with \<^verbatim>\<open>data-testid='postText'\<close>: its text, and the two
  lookups made from it, the profile link (its text) and the time link (its
  \<^verbatim>\<open>aria-label\<close>), each \<open>None\<close> when \<^verbatim>\<open>find_element\<close> raises. The feed is what
  \<^verbatim>\<open>driver.get\<close> and the wait of at most 20 seconds give: \<^verbatim>\<open>driver.get\<close> raises,
  or the page shows a list of posts; the wait raises TimeoutException when no post
  appears.
\<close>

record post =
  post_text :: string
  name_elem :: "string option"
  time_elem :: "string option"

datatype feed = Unreachable | Feed "post list"

record kstate =
  kcsv :: csv_file
  found :: "nat option"
  kquits :: nat

text \<open>
  \<^verbatim>\<open>str.strip()\<close>: leading and trailing whitespace removed, whitespace being what
  \<^verbatim>\<open>str.isspace\<close> accepts among the code points below 256.
\<close>

definition is_space :: "char \<Rightarrow> bool" where
  "is_space c = (of_char c \<in> set [9, 10, 11, 12, 13, 28, 29, 30, 31, 32, 133, 160 :: nat])"

definition strip :: "string \<Rightarrow> string" where
  "strip s = rev (dropWhile is_space (rev (dropWhile is_space s)))"

text \<open>Lines 34 to 49 and the row of line 53; the bare \<^verbatim>\<open>except\<close> gives "Unknown".\<close>

definition post_name :: "post \<Rightarrow> string" where
  "post_name p = (case name_elem p of None \<Rightarrow> ''Unknown'' | Some t \<Rightarrow> strip t)"

definition post_time :: "post \<Rightarrow> string" where
  "post_time p = (case time_elem p of None \<Rightarrow> ''Unknown'' | Some a \<Rightarrow> a)"

definition post_row :: "post \<Rightarrow> row" where
  "post_row p = [post_name p, post_time p, strip (post_text p)]"

text \<open>The loop \<^verbatim>\<open>for post in posts\<close>.\<close>

fun posts_loop :: "filesys \<Rightarrow> post list \<Rightarrow> csv_file \<Rightarrow> error option \<times> csv_file" where
  "posts_loop fs [] f = (None, f)"
| "posts_loop fs (p # ps) f =
     (case append_row fs f (post_row p) of
        Inl e \<Rightarrow> (Some e, f)
      | Inr f' \<Rightarrow> posts_loop fs ps f')"

text \<open>The body of the \<^verbatim>\<open>try\<close>, lines 23 to 55.\<close>

definition bluesky_try :: "filesys \<Rightarrow> feed \<Rightarrow> kstate \<Rightarrow> error option \<times> kstate" where
  "bluesky_try fs fd s =
     (case fd of
        Unreachable \<Rightarrow> (Some WebDriverException, s)
      | Feed ps \<Rightarrow>
          if ps = [] then (Some TimeoutException, s)
          else (let s1 = s\<lparr>found := Some (length ps)\<rparr> in
                case posts_loop fs ps (kcsv s1) of
                  (r, f) \<Rightarrow> (r, s1\<lparr>kcsv := f\<rparr>)))"

text \<open>
  The whole script once the driver exists (line 16): the removal in front of the
  \<^verbatim>\<open>try\<close>, the \<^verbatim>\<open>try\<close>, and \<^verbatim>\<open>finally: driver.quit()\<close>. There is no handler:
  an exception of the \<^verbatim>\<open>try\<close> leaves the program after the \<^verbatim>\<open>finally\<close>.
\<close>

definition bluesky_start :: "csv_file \<Rightarrow> kstate" where
  "bluesky_start f = \<lparr>kcsv = f, found = None, kquits = 0\<rparr>"

definition bluesky_main :: "filesys \<Rightarrow> feed \<Rightarrow> csv_file \<Rightarrow> error option \<times> kstate" where
  "bluesky_main fs fd f0 =
     (case remove_output fs f0 of
        Inl e \<Rightarrow> (Some e, bluesky_start f0)
      | Inr f \<Rightarrow>
          (case bluesky_try fs fd (bluesky_start f) of
             (r, s) \<Rightarrow> (r, s\<lparr>kquits := kquits s + 1\<rparr>)))"


section \<open>Vocabulary of the statements\<close>

text \<open>
  A book (a quote) is good when its field lookups all resolve, so that the script gets a
  row from it; \<open>book_row\<close> and \<open>quote_row\<close> are that row. A page of the books site
  is good when it was fetched, holds at least one book, and all its books are good.
\<close>

definition book_row :: "book \<Rightarrow> row" where
  "book_row b = projr (book_fields b)"

definition good_book :: "book \<Rightarrow> bool" where
  "good_book b = (\<not> isl (book_fields b))"

definition page_books :: "response \<Rightarrow> book list" where
  "page_books r = (case r of ConnectionFailed \<Rightarrow> [] | Html bs \<Rightarrow> bs)"

definition good_page :: "response \<Rightarrow> bool" where
  "good_page r = (case r of ConnectionFailed \<Rightarrow> False | Html bs \<Rightarrow> bs \<noteq> [] \<and> list_all good_book bs)"

definition page_rows :: "web \<Rightarrow> nat \<Rightarrow> row list" where
  "page_rows w n = map book_row (page_books (w n))"

definition site_books :: "web \<Rightarrow> nat \<Rightarrow> book list" where
  "site_books w k = concat (map (\<lambda>n. page_books (w n)) [1..<k + 1])"

text \<open>
  \<open>with_header f rs\<close> is the books file \<open>f\<close> after the rows \<open>rs\<close> were appended by
  \<open>append_book\<close>: the header comes first when \<open>f\<close> was empty or absent.
\<close>

definition with_header :: "csv_file \<Rightarrow> row list \<Rightarrow> csv_file" where
  "with_header f rs =
     (if rs = [] then f else Some ((if rows_of f = [] then [header] else rows_of f) @ rs))"

definition quote_row :: "quote \<Rightarrow> row" where
  "quote_row q = projr (quote_fields q)"

definition good_quote :: "quote \<Rightarrow> bool" where
  "good_quote q = (\<not> isl (quote_fields q))"

text \<open>
  \<open>page_at pg i\<close> is the page reached from \<open>pg\<close> by \<open>i\<close> clicks on the next-page link;
  \<open>first_quotes pg i\<close> lists the quotes of the first \<open>i\<close> pages from \<open>pg\<close> on, in
  document order.
\<close>

fun page_at :: "page \<Rightarrow> nat \<Rightarrow> page option" where
  "page_at pg 0 = Some pg"
| "page_at pg (Suc i) = (case next_link pg of None \<Rightarrow> None | Some pg' \<Rightarrow> page_at pg' i)"

fun first_quotes :: "page \<Rightarrow> nat \<Rightarrow> quote list" where
  "first_quotes pg 0 = []"
| "first_quotes pg (Suc i) =
     quotes pg @ (case next_link pg of None \<Rightarrow> [] | Some pg' \<Rightarrow> first_quotes pg' i)"

definition reachable_quotes :: "page option \<Rightarrow> nat \<Rightarrow> quote list" where
  "reachable_quotes entry n = (case entry of None \<Rightarrow> [] | Some pg \<Rightarrow> first_quotes pg n)"

definition feed_posts :: "feed \<Rightarrow> post list" where
  "feed_posts fd = (case fd of Unreachable \<Rightarrow> [] | Feed ps \<Rightarrow> ps)"

section \<open>Concrete worlds\<close>

text \<open>
  A file system that accepts every operation, and one on which the old output file
  exists but cannot be removed (a read-only directory, say); a few books, quotes, posts
  and sites built from them.
\<close>

definition old_row :: row where
  "old_row = [''old'']"

definition einstein_row :: row where
  "einstein_row = [''Albert Einstein'', ''Try not to become a man of success.'']"

definition ideal_fs :: filesys where
  "ideal_fs = \<lparr>removable = True, writable = (\<lambda>rs. True)\<rparr>"

definition locked_fs :: filesys where
  "locked_fs = \<lparr>removable = False, writable = (\<lambda>rs. True)\<rparr>"

definition book_a :: book where
  "book_a = \<lparr>title_anchor = Some ''A Light in the Attic'', price_elem = Some ''51.77'',
              rating_elem = Some [''star-rating'', ''Three'']\<rparr>"

definition book_no_price :: book where
  "book_no_price = \<lparr>title_anchor = Some ''Soumission'', price_elem = None,
              rating_elem = Some [''star-rating'', ''One'']\<rparr>"

definition one_book_web :: web where
  "one_book_web n = Html [book_a]"

definition empty_web :: web where
  "empty_web n = Html []"

definition down_web :: web where
  "down_web n = (if n = 1 then ConnectionFailed else Html [book_a])"

definition quote_a :: quote where
  "quote_a = \<lparr>quote_text = Some ''Try not to become a man of success.'',
               quote_author = Some ''Albert Einstein''\<rparr>"

definition quote_anon :: quote where
  "quote_anon = \<lparr>quote_text = Some ''A day without sunshine is like night.'',
                  quote_author = None\<rparr>"

definition site_end :: page where
  "site_end = Page [quote_a] None"

definition site3 :: page where
  "site3 = Page [quote_a] (Some (Page [quote_a] (Some site_end)))"

definition site4 :: page where
  "site4 = Page [quote_a] (Some site3)"

definition site_bad :: page where
  "site_bad = Page [quote_a, quote_anon, quote_a] (Some site_end)"

definition post_a :: post where
  "post_a = \<lparr>post_text = '' hello world '', name_elem = Some ''alice'',
              time_elem = Some ''May 1, 2025 at 10:00 AM''\<rparr>"

definition post_anon :: post where
  "post_anon = \<lparr>post_text = ''hi'', name_elem = None, time_elem = None\<rparr>"

section \<open>Unfolding the runs\<close>

text \<open>
  The definitions of the concrete worlds and of the straight-line parts of the three
  scripts, for evaluating a run on a concrete world.
\<close>

lemmas demo_defs = old_row_def einstein_row_def ideal_fs_def locked_fs_def book_a_def book_no_price_def one_book_web_def
  empty_web_def down_web_def quote_a_def quote_anon_def site_end_def site3_def site4_def
  site_bad_def post_a_def post_anon_def

lemmas run_defs = books_main_def scrape_page_def book_fields_def append_book_def
  remove_output_def rows_of_def header_def append_row_def quotes_main_def quotes_try_def
  quotes_except_def quotes_start_def quote_fields_def bluesky_main_def bluesky_try_def
  bluesky_start_def post_row_def post_name_def post_time_def quotes_n_def


section \<open>The books script: loops\<close>

lemma remove_output_ok: "f0 = None \<or> removable fs \<Longrightarrow> remove_output fs f0 = Inr None"
  by (auto simp: remove_output_def split: option.splits)

lemma with_header_append: "with_header (with_header f xs) ys = with_header f (xs @ ys)"
  by (simp add: with_header_def rows_of_def)

lemma good_book_fields: "good_book b \<Longrightarrow> book_fields b = Inr (book_row b)"
  by (cases "book_fields b") (simp_all add: good_book_def book_row_def)

lemma append_book_ok:
  "writable fs (rows_of f) \<Longrightarrow> append_book fs f r = Inr (with_header f [r])"
  by (simp add: append_book_def with_header_def)

lemma books_loop_ok:
  "list_all good_book bs \<Longrightarrow> (\<And>rs. writable fs rs) \<Longrightarrow>
   books_loop fs bs f = (None, with_header f (map book_row bs))"
proof (induction bs arbitrary: f)
  case Nil
  then show ?case by (simp add: with_header_def)
next
  case (Cons b bs)
  have "books_loop fs (b # bs) f = books_loop fs bs (with_header f [book_row b])"
    using Cons.prems by (simp add: good_book_fields append_book_ok)
  also have "\<dots> = (None, with_header (with_header f [book_row b]) (map book_row bs))"
    using Cons.prems by (intro Cons.IH) simp_all
  finally show ?case by (simp add: with_header_append)
qed

lemma books_loop_append:
  assumes "list_all good_book bs" "\<And>rs. writable fs rs"
  shows "books_loop fs (bs @ rest) f = books_loop fs rest (with_header f (map book_row bs))"
  using assms(1)
proof (induction bs arbitrary: f)
  case Nil
  then show ?case by (simp add: with_header_def)
next
  case (Cons b bs)
  then show ?case
    using assms(2) by (simp add: good_book_fields append_book_ok with_header_append)
qed

lemma scrape_page_ok:
  assumes "good_page (w n)" and "\<And>rs. writable fs rs"
  shows "scrape_page fs w n s =
    (None, s\<lparr>bcsv := with_header (bcsv s) (page_rows w n),
             fetched := fetched s @ [n], pages_done := pages_done s @ [n]\<rparr>)"
proof -
  obtain bs where w: "w n = Html bs" and ne: "bs \<noteq> []" and g: "list_all good_book bs"
    using assms(1) by (auto simp: good_page_def split: response.splits)
  have "books_loop fs bs (bcsv s) = (None, with_header (bcsv s) (map book_row bs))"
    using g assms(2) by (rule books_loop_ok)
  then show ?thesis
    using w ne by (simp add: scrape_page_def page_rows_def page_books_def)
qed

lemma pages_loop_ok:
  assumes "\<And>rs. writable fs rs"
  shows "list_all (\<lambda>n. good_page (w n)) ns \<Longrightarrow>
    pages_loop fs w ns s =
    (None, s\<lparr>bcsv := with_header (bcsv s) (concat (map (page_rows w) ns)),
             fetched := fetched s @ ns, pages_done := pages_done s @ ns\<rparr>)"
proof (induction ns arbitrary: s)
  case Nil
  then show ?case by (simp add: with_header_def)
next
  case (Cons n ns)
  then show ?case
    using assms by (simp add: scrape_page_ok with_header_append)
qed

lemma good_page_rows_ne: "good_page (w n) \<Longrightarrow> page_rows w n \<noteq> []"
  by (auto simp: good_page_def page_rows_def page_books_def split: response.splits)

text \<open>Where the loops stop: a page that is not good raises, and every later page is skipped.\<close>

lemma books_loop_bad:
  "\<not> list_all good_book bs \<Longrightarrow> \<exists>e f'. books_loop fs bs f = (Some e, f')"
proof (induction bs arbitrary: f)
  case Nil
  then show ?case by simp
next
  case (Cons b bs)
  show ?case
  proof (cases "book_fields b")
    case (Inl e)
    then show ?thesis by simp
  next
    case (Inr r)
    then have "good_book b" by (simp add: good_book_def)
    with Cons.prems have bad: "\<not> list_all good_book bs" by simp
    show ?thesis
    proof (cases "append_book fs f r")
      case (Inl e)
      with Inr show ?thesis by simp
    next
      case (Inr f')
      with \<open>book_fields b = Inr r\<close> Cons.IH[OF bad, of f'] show ?thesis by simp
    qed
  qed
qed

lemma scrape_page_log:
  "scrape_page fs w n s = (r, s') \<Longrightarrow>
   fetched s' = fetched s @ [n] \<and>
   pages_done s' = pages_done s @ (if r = None then [n] else [])"
  by (auto simp: scrape_page_def Let_def split: response.splits if_splits prod.splits option.splits)

lemma scrape_page_bad:
  assumes "\<not> good_page (w n)"
  shows "\<exists>e s'. scrape_page fs w n s = (Some e, s')"
proof (cases "w n")
  case ConnectionFailed
  then show ?thesis by (simp add: scrape_page_def)
next
  case (Html bs)
  show ?thesis
  proof (cases "bs = []")
    case True
    with Html show ?thesis by (simp add: scrape_page_def)
  next
    case False
    with Html assms have "\<not> list_all good_book bs" by (simp add: good_page_def)
    from books_loop_bad[OF this] obtain e f' where "books_loop fs bs (bcsv s) = (Some e, f')"
      by blast
    with Html False show ?thesis by (simp add: scrape_page_def)
  qed
qed

lemma pages_loop_stops:
  assumes "\<not> good_page (w p)"
  shows "\<exists>e s'. pages_loop fs w (xs @ p # ys) s = (Some e, s') \<and>
           set (fetched s') \<subseteq> set (fetched s) \<union> set xs \<union> {p} \<and>
           set (pages_done s') \<subseteq> set (pages_done s) \<union> set xs"
proof (induction xs arbitrary: s)
  case Nil
  from scrape_page_bad[of w p, OF assms] obtain e s' where sp: "scrape_page fs w p s = (Some e, s')"
    by blast
  from scrape_page_log[OF sp] sp show ?case by simp
next
  case (Cons x xs)
  obtain r s1 where sp: "scrape_page fs w x s = (r, s1)" by (cases "scrape_page fs w x s")
  note lg = scrape_page_log[OF sp]
  show ?case
  proof (cases r)
    case None
    from Cons.IH[of s1] obtain e s' where
      "pages_loop fs w (xs @ p # ys) s1 = (Some e, s')"
      "set (fetched s') \<subseteq> set (fetched s1) \<union> set xs \<union> {p}"
      "set (pages_done s') \<subseteq> set (pages_done s1) \<union> set xs"
      by blast
    with sp None lg show ?thesis by auto
  next
    case (Some e)
    with sp lg show ?thesis by auto
  qed
qed

lemma upt_split_at:
  assumes "1 \<le> p" "p \<le> k"
  shows "[1..<k + 1] = [1..<p] @ p # [p + 1..<k + 1]"
proof -
  have "[1..<k + 1] = [1..<p] @ [p..<k + 1]"
    using upt_add_eq_append[of 1 p "k + 1 - p"] assms by simp
  moreover have "[p..<k + 1] = p # [p + 1..<k + 1]"
    using upt_conv_Cons[of p "k + 1"] assms by simp
  ultimately show ?thesis by simp
qed

lemma books_stop_at_failure:
  assumes "1 \<le> p" "p \<le> k" "\<not> good_page (w p)"
  shows "fst (books_main fs w k f0) \<noteq> None \<and>
         (\<forall>q. p < q \<longrightarrow> q \<notin> set (fetched (snd (books_main fs w k f0)))) \<and>
         (\<forall>q. p \<le> q \<longrightarrow> q \<notin> set (pages_done (snd (books_main fs w k f0))))"
proof (cases "remove_output fs f0")
  case (Inl e)
  then show ?thesis by (simp add: books_main_def)
next
  case (Inr f)
  let ?s = "\<lparr>bcsv = f, fetched = [], pages_done = []\<rparr>"
  from pages_loop_stops[of w p, OF assms(3), of fs "[1..<p]" "[p + 1..<k + 1]" ?s]
  obtain e s' where
    "pages_loop fs w ([1..<p] @ p # [p + 1..<k + 1]) ?s = (Some e, s')"
    "set (fetched s') \<subseteq> set [1..<p] \<union> {p}"
    "set (pages_done s') \<subseteq> set [1..<p]"
    by auto
  then show ?thesis
    using Inr upt_split_at[OF assms(1,2)] by (auto simp: books_main_def simp del: upt_Suc)
qed

text \<open>
  What the file holds whatever happens: the rows of the books handled so far, a prefix of
  the site's books in page order, under the header.
\<close>

lemma books_loop_rows:
  "books_loop fs bs f = (r, f') \<Longrightarrow>
   \<exists>m \<le> length bs. f' = with_header f (map book_row (take m bs)) \<and>
      list_all good_book (take m bs) \<and> (r = None \<longrightarrow> m = length bs)"
proof (induction bs arbitrary: f)
  case Nil
  then show ?case by (simp add: with_header_def)
next
  case (Cons b bs)
  have stop: ?case if "f' = f" "r \<noteq> None"
    using that by (intro exI[of _ 0]) (simp add: with_header_def)
  show ?case
  proof (cases "book_fields b")
    case (Inl e)
    with Cons.prems show ?thesis by (intro stop) auto
  next
    case (Inr row)
    then have gb: "good_book b" and row: "row = book_row b"
      by (simp_all add: good_book_def book_row_def)
    show ?thesis
    proof (cases "append_book fs f row")
      case (Inl e)
      with Inr Cons.prems show ?thesis by (intro stop) auto
    next
      case (Inr f1)
      then have f1: "f1 = with_header f [book_row b]"
        by (auto simp: append_book_def row with_header_def split: if_splits)
      from Inr \<open>book_fields b = Inr row\<close> Cons.prems
      have "books_loop fs bs f1 = (r, f')" by simp
      from Cons.IH[OF this] obtain m where
        m: "m \<le> length bs" "f' = with_header f1 (map book_row (take m bs))"
           "list_all good_book (take m bs)" "r = None \<longrightarrow> m = length bs"
        by blast
      show ?thesis
        using m gb unfolding f1 with_header_append
        by (intro exI[of _ "Suc m"]) simp
    qed
  qed
qed

lemma scrape_page_rows:
  assumes "scrape_page fs w n s = (r, s')"
  shows "\<exists>m \<le> length (page_books (w n)).
           bcsv s' = with_header (bcsv s) (map book_row (take m (page_books (w n)))) \<and>
           list_all good_book (take m (page_books (w n))) \<and>
           (r = None \<longrightarrow> m = length (page_books (w n)) \<and> 0 < m)"
proof (cases "w n")
  case ConnectionFailed
  with assms show ?thesis
    by (intro exI[of _ 0]) (auto simp: scrape_page_def with_header_def)
next
  case (Html bs)
  show ?thesis
  proof (cases "bs = []")
    case True
    with Html assms show ?thesis
      by (intro exI[of _ 0]) (auto simp: scrape_page_def with_header_def)
  next
    case False
    obtain r1 f where bl: "books_loop fs bs (bcsv s) = (r1, f)"
      by (cases "books_loop fs bs (bcsv s)")
    with Html False assms have rs: "r = r1" "bcsv s' = f"
      by (auto simp: scrape_page_def Let_def split: option.splits)
    from books_loop_rows[OF bl] obtain m where
      "m \<le> length bs" "f = with_header (bcsv s) (map book_row (take m bs))"
      "list_all good_book (take m bs)" "r1 = None \<longrightarrow> m = length bs"
      by blast
    with rs Html False show ?thesis
      by (intro exI[of _ m]) (simp add: page_books_def)
  qed
qed

lemma pages_loop_rows:
  "pages_loop fs w ns s = (r, s') \<Longrightarrow>
   \<exists>m. bcsv s' = with_header (bcsv s) (map book_row (take m (concat (map (\<lambda>n. page_books (w n)) ns)))) \<and>
       list_all good_book (take m (concat (map (\<lambda>n. page_books (w n)) ns))) \<and>
       (pages_done s' \<noteq> pages_done s \<longrightarrow> take m (concat (map (\<lambda>n. page_books (w n)) ns)) \<noteq> [])"
proof (induction ns arbitrary: s)
  case Nil
  then show ?case by (simp add: with_header_def)
next
  case (Cons n ns)
  obtain r1 s1 where sp: "scrape_page fs w n s = (r1, s1)" by (cases "scrape_page fs w n s")
  from scrape_page_rows[OF sp] obtain m1 where
    m1: "m1 \<le> length (page_books (w n))"
      "bcsv s1 = with_header (bcsv s) (map book_row (take m1 (page_books (w n))))"
      "list_all good_book (take m1 (page_books (w n)))"
      "r1 = None \<longrightarrow> m1 = length (page_books (w n)) \<and> 0 < m1"
    by blast
  note lg = scrape_page_log[OF sp]
  show ?case
  proof (cases r1)
    case (Some e)
    with sp Cons.prems have "s' = s1" by simp
    with m1 lg Some show ?thesis by (intro exI[of _ m1]) simp
  next
    case None
    with sp Cons.prems have "pages_loop fs w ns s1 = (r, s')" by simp
    from Cons.IH[OF this] obtain m2 where
      m2: "bcsv s' = with_header (bcsv s1) (map book_row (take m2 (concat (map (\<lambda>n. page_books (w n)) ns))))"
        "list_all good_book (take m2 (concat (map (\<lambda>n. page_books (w n)) ns)))"
      by blast
    from m1 None have full: "m1 = length (page_books (w n))" "page_books (w n) \<noteq> []" by auto
    show ?thesis
      using m1(3) m2(2) full unfolding m2(1) m1(2) with_header_append
      by (intro exI[of _ "length (page_books (w n)) + m2"]) simp
  qed
qed

lemma books_header_once:
  assumes "pages_done (snd (books_main fs w k f0)) \<noteq> []"
  shows "\<exists>m. take m (site_books w k) \<noteq> [] \<and>
           bcsv (snd (books_main fs w k f0)) = Some (header # map book_row (take m (site_books w k))) \<and>
           list_all good_book (take m (site_books w k))"
proof (cases "remove_output fs f0")
  case (Inl e)
  with assms show ?thesis by (simp add: books_main_def)
next
  case (Inr f)
  then have f: "f = None" by (auto simp: remove_output_def split: option.splits if_splits)
  let ?s = "\<lparr>bcsv = None, fetched = [], pages_done = []\<rparr>"
  obtain r s' where pl: "pages_loop fs w [1..<k + 1] ?s = (r, s')"
    by (cases "pages_loop fs w [1..<k + 1] ?s")
  with Inr f have main: "books_main fs w k f0 = (r, s')" by (simp add: books_main_def)
  from pages_loop_rows[OF pl] obtain m where
    m: "bcsv s' = with_header None (map book_row (take m (site_books w k)))"
      "list_all good_book (take m (site_books w k))"
      "pages_done s' \<noteq> [] \<longrightarrow> take m (site_books w k) \<noteq> []"
    by (auto simp: site_books_def simp del: upt_Suc)
  from assms main m(3) have ne: "take m (site_books w k) \<noteq> []" by simp
  then have "bcsv s' = Some (header # map book_row (take m (site_books w k)))"
    unfolding m(1) by (simp add: with_header_def rows_of_def)
  with ne m(2) main show ?thesis by auto
qed

lemma book_missing_field:
  "title_anchor b = None \<or> price_elem b = None \<or> rating_elem b = None \<Longrightarrow> \<not> good_book b"
  by (auto simp: good_book_def book_fields_def split: option.splits)

section \<open>The quotes script: loops\<close>

lemma good_quote_fields: "good_quote q \<Longrightarrow> quote_fields q = Inr (quote_row q)"
  by (cases "quote_fields q") (simp_all add: good_quote_def quote_row_def)

lemma quotes_loop_rows:
  "quotes_loop fs qs f = (r, f') \<Longrightarrow>
   \<exists>m \<le> length qs. rows_of f' = rows_of f @ map quote_row (take m qs) \<and>
      list_all good_quote (take m qs) \<and> (r = None \<longrightarrow> m = length qs)"
proof (induction qs arbitrary: f)
  case Nil
  then show ?case by simp
next
  case (Cons q qs)
  show ?case
  proof (cases "quote_fields q")
    case (Inl e)
    with Cons.prems have "f' = f" "r = Some e" by simp_all
    then show ?thesis by (intro exI[of _ 0]) simp
  next
    case (Inr row)
    then have gq: "good_quote q" and row: "row = quote_row q"
      by (simp_all add: good_quote_def quote_row_def)
    show ?thesis
    proof (cases "append_row fs f row")
      case (Inl e)
      with Inr Cons.prems have "f' = f" "r = Some e" by simp_all
      then show ?thesis by (intro exI[of _ 0]) simp
    next
      case (Inr f1)
      then have f1: "rows_of f1 = rows_of f @ [quote_row q]"
        by (auto simp: append_row_def row rows_of_def split: if_splits)
      from Inr \<open>quote_fields q = Inr row\<close> Cons.prems
      have "quotes_loop fs qs f1 = (r, f')" by simp
      from Cons.IH[OF this] obtain m where
        m: "m \<le> length qs" "rows_of f' = rows_of f1 @ map quote_row (take m qs)"
           "list_all good_quote (take m qs)" "r = None \<longrightarrow> m = length qs"
        by blast
      show ?thesis
        using m f1 gq by (intro exI[of _ "Suc m"]) simp
    qed
  qed
qed

lemma quotes_loop_bad:
  "\<not> list_all good_quote qs \<Longrightarrow> \<exists>e f'. quotes_loop fs qs f = (Some e, f')"
proof -
  assume bad: "\<not> list_all good_quote qs"
  obtain r f' where q: "quotes_loop fs qs f = (r, f')" by (cases "quotes_loop fs qs f")
  from quotes_loop_rows[OF q] obtain m where
    "list_all good_quote (take m qs)" "r = None \<longrightarrow> m = length qs" by blast
  with bad have "r \<noteq> None" by auto
  with q show ?thesis by auto
qed

lemma quotes_loop_append:
  assumes "list_all good_quote qs" "\<And>rs. writable fs rs"
  shows "quotes_loop fs (qs @ rest) f =
         quotes_loop fs rest (if qs = [] then f else Some (rows_of f @ map quote_row qs))"
  using assms(1)
proof (induction qs arbitrary: f)
  case Nil
  then show ?case by simp
next
  case (Cons q qs)
  have "append_row fs f (quote_row q) = Inr (Some (rows_of f @ [quote_row q]))"
    using assms(2) by (simp add: append_row_def)
  with Cons show ?case by (simp add: good_quote_fields rows_of_def)
qed

lemma quote_missing_field:
  "quote_text q = None \<or> quote_author q = None \<Longrightarrow> \<not> good_quote q"
  by (auto simp: good_quote_def quote_fields_def split: option.splits)

lemma qpages_loop_log:
  "qpages_loop fs n ns pg s = (r, s') \<Longrightarrow>
   qprinted s' = qprinted s \<and> qquits s' = qquits s"
proof (induction ns arbitrary: pg s)
  case Nil
  then show ?case by simp
next
  case (Cons p ps)
  then show ?case
    by (auto simp: Let_def split: prod.splits option.splits if_splits)
qed

lemma qpages_loop_stops:
  assumes "i < length ns" "page_at pg i = Some pgi" "\<not> list_all good_quote (quotes pgi)"
    "\<forall>x \<in> set (take i ns). x < n"
  shows "\<exists>e s'. qpages_loop fs n ns pg s = (Some e, s') \<and>
           set (scraping s') \<subseteq> set (scraping s) \<union> set (take (Suc i) ns) \<and>
           advances s' \<le> advances s + i"
  using assms
proof (induction ns arbitrary: i pg s)
  case Nil
  then show ?case by simp
next
  case (Cons p ps)
  let ?s1 = "s\<lparr>scraping := scraping s @ [p]\<rparr>"
  obtain r f where ql: "quotes_loop fs (quotes pg) (qcsv ?s1) = (r, f)"
    by (cases "quotes_loop fs (quotes pg) (qcsv ?s1)")
  show ?case
  proof (cases r)
    case (Some e)
    with ql show ?thesis by (auto simp: Let_def)
  next
    case None
    have "i \<noteq> 0"
    proof
      assume "i = 0"
      with Cons.prems have "\<not> list_all good_quote (quotes pg)" by simp
      from quotes_loop_bad[OF this, of fs "qcsv ?s1"] ql None show False by simp
    qed
    then obtain j where i: "i = Suc j" by (cases i) auto
    with Cons.prems obtain pg' where nx: "next_link pg = Some pg'" and at: "page_at pg' j = Some pgi"
      by (auto split: option.splits)
    from Cons.prems i have pn: "p < n" and rest: "\<forall>x \<in> set (take j ps). x < n" and j: "j < length ps"
      by auto
    let ?s2 = "?s1\<lparr>qcsv := f, advances := advances ?s1 + 1\<rparr>"
    from Cons.IH[OF j at Cons.prems(3) rest, of ?s2] obtain e s' where
      "qpages_loop fs n ps pg' ?s2 = (Some e, s')"
      "set (scraping s') \<subseteq> set (scraping ?s2) \<union> set (take (Suc j) ps)"
      "advances s' \<le> advances ?s2 + j"
      by blast
    with ql None nx pn i show ?thesis by (auto simp: Let_def)
  qed
qed

lemma qpages_loop_rows:
  "qpages_loop fs n ns pg s = (r, s') \<Longrightarrow>
   \<exists>m. rows_of (qcsv s') = rows_of (qcsv s) @ map quote_row (take m (first_quotes pg (length ns))) \<and>
       list_all good_quote (take m (first_quotes pg (length ns)))"
proof (induction ns arbitrary: pg s)
  case Nil
  then show ?case by simp
next
  case (Cons p ps)
  let ?s1 = "s\<lparr>scraping := scraping s @ [p]\<rparr>"
  obtain r1 f where ql: "quotes_loop fs (quotes pg) (qcsv ?s1) = (r1, f)"
    by (cases "quotes_loop fs (quotes pg) (qcsv ?s1)")
  from quotes_loop_rows[OF ql] obtain m1 where
    m1: "m1 \<le> length (quotes pg)" "rows_of f = rows_of (qcsv s) @ map quote_row (take m1 (quotes pg))"
      "list_all good_quote (take m1 (quotes pg))" "r1 = None \<longrightarrow> m1 = length (quotes pg)"
    by auto
  let ?s2 = "?s1\<lparr>qcsv := f, advances := advances ?s1 + 1\<rparr>"
  have short: ?case if "qcsv s' = f"
    using that m1 by (intro exI[of _ m1]) simp
  show ?case
  proof (cases r1)
    case (Some e)
    with ql Cons.prems have "qcsv s' = f" by (auto simp: Let_def)
    then show ?thesis by (rule short)
  next
    case None
    show ?thesis
    proof (cases "next_link pg")
      case None
      with ql \<open>r1 = None\<close> Cons.prems have "qcsv s' = f" by (auto simp: Let_def)
      then show ?thesis by (rule short)
    next
      case (Some pg')
      show ?thesis
      proof (cases "p \<ge> n")
        case True
        with ql \<open>r1 = None\<close> Some Cons.prems have "qcsv s' = f" by (auto simp: Let_def)
        then show ?thesis by (rule short)
      next
        case False
        with ql \<open>r1 = None\<close> Some Cons.prems
        have "qpages_loop fs n ps pg' ?s2 = (r, s')" by (auto simp: Let_def)
        from Cons.IH[OF this] obtain m2 where
          m2: "rows_of (qcsv s') = rows_of f @ map quote_row (take m2 (first_quotes pg' (length ps)))"
            "list_all good_quote (take m2 (first_quotes pg' (length ps)))"
          by auto
        from m1 \<open>r1 = None\<close> have full: "m1 = length (quotes pg)" by simp
        show ?thesis
          using m1 m2 full Some by (intro exI[of _ "length (quotes pg) + m2"]) simp
      qed
    qed
  qed
qed

lemma quotes_main_unfold:
  assumes "f0 = None \<or> removable fs"
  shows "quotes_main fs entry n f0 =
    (None, (quotes_except (quotes_try fs entry n (quotes_start None)))
       \<lparr>qquits := qquits (quotes_except (quotes_try fs entry n (quotes_start None))) + 1\<rparr>)"
  using remove_output_ok[OF assms] by (simp add: quotes_main_def Let_def)

lemma quotes_try_log:
  "quotes_try fs entry n s = (r, s') \<Longrightarrow> qprinted s' = qprinted s \<and> qquits s' = qquits s"
  by (auto simp: quotes_try_def split: option.splits dest: qpages_loop_log)

lemma quotes_stop_at_failure:
  assumes "1 \<le> p" "p \<le> n" "page_at pg (p - 1) = Some pgp"
    "\<not> list_all good_quote (quotes pgp)" "f0 = None \<or> removable fs"
  shows "fst (quotes_main fs (Some pg) n f0) = None \<and>
         qquits (snd (quotes_main fs (Some pg) n f0)) = 1 \<and>
         length (qprinted (snd (quotes_main fs (Some pg) n f0))) = 1 \<and>
         (\<forall>q. p < q \<longrightarrow> q \<notin> set (scraping (snd (quotes_main fs (Some pg) n f0)))) \<and>
         advances (snd (quotes_main fs (Some pg) n f0)) < p"
proof -
  have len: "p - 1 < length [1..<n + 1]" using assms(1,2) by simp
  have tk: "take (p - 1) [1..<n + 1] = [1..<p]" "take (Suc (p - 1)) [1..<n + 1] = [1..<p + 1]"
    using assms(1,2) by (simp_all add: take_upt del: upt_Suc)
  have lt: "\<forall>x \<in> set (take (p - 1) [1..<n + 1]). x < n"
    unfolding tk using assms(2) by auto
  from qpages_loop_stops[OF len assms(3,4) lt, of fs "quotes_start None"]
  obtain e s' where
    run: "qpages_loop fs n [1..<n + 1] pg (quotes_start None) = (Some e, s')" and
    sc: "set (scraping s') \<subseteq> set [1..<p + 1]" and
    adv: "advances s' \<le> p - 1"
    unfolding tk by (auto simp: quotes_start_def simp del: upt_Suc)
  from qpages_loop_log[OF run] have lg: "qprinted s' = []" "qquits s' = 0"
    by (simp_all add: quotes_start_def)
  have "quotes_main fs (Some pg) n f0 = (None, s'\<lparr>qprinted := [e], qquits := 1\<rparr>)"
    unfolding quotes_main_unfold[OF assms(5)]
    using run lg by (simp add: quotes_try_def quotes_except_def del: upt_Suc)
  then show ?thesis using sc adv assms(1) by (auto simp del: upt_Suc)
qed

lemma quotes_try_rows:
  assumes "quotes_try fs entry n s = (r, s')"
  shows "\<exists>m. rows_of (qcsv s') = rows_of (qcsv s) @
              map quote_row (take m (case entry of None \<Rightarrow> [] | Some pg \<Rightarrow> first_quotes pg n)) \<and>
           list_all good_quote (take m (case entry of None \<Rightarrow> [] | Some pg \<Rightarrow> first_quotes pg n))"
proof (cases entry)
  case None
  with assms show ?thesis by (simp add: quotes_try_def)
next
  case (Some pg)
  with assms have "qpages_loop fs n [1..<n + 1] pg s = (r, s')" by (simp add: quotes_try_def)
  from qpages_loop_rows[OF this] Some show ?thesis by (simp del: upt_Suc)
qed

section \<open>The Bluesky script: loops\<close>

lemma posts_loop_rows:
  "posts_loop fs ps f = (r, f') \<Longrightarrow>
   \<exists>m \<le> length ps. rows_of f' = rows_of f @ map post_row (take m ps) \<and>
      (r = None \<longrightarrow> m = length ps)"
proof (induction ps arbitrary: f)
  case Nil
  then show ?case by simp
next
  case (Cons p ps)
  show ?case
  proof (cases "append_row fs f (post_row p)")
    case (Inl e)
    with Cons.prems show ?thesis by (intro exI[of _ 0]) auto
  next
    case (Inr f1)
    then have f1: "rows_of f1 = rows_of f @ [post_row p]"
      by (auto simp: append_row_def rows_of_def split: if_splits)
    from Inr Cons.prems have "posts_loop fs ps f1 = (r, f')" by simp
    from Cons.IH[OF this] obtain m where
      "m \<le> length ps" "rows_of f' = rows_of f1 @ map post_row (take m ps)"
      "r = None \<longrightarrow> m = length ps"
      by blast
    with f1 show ?thesis by (intro exI[of _ "Suc m"]) simp
  qed
qed

lemma posts_loop_ok:
  assumes "\<And>rs. writable fs rs"
  shows "posts_loop fs ps f = (None, if ps = [] then f else Some (rows_of f @ map post_row ps))"
proof (induction ps arbitrary: f)
  case Nil
  then show ?case by simp
next
  case (Cons p ps)
  have "append_row fs f (post_row p) = Inr (Some (rows_of f @ [post_row p]))"
    using assms by (simp add: append_row_def)
  then show ?case using Cons.IH by (simp add: rows_of_def)
qed

lemma bluesky_try_rows:
  assumes "bluesky_try fs fd s = (r, s')"
  shows "\<exists>m. rows_of (kcsv s') = rows_of (kcsv s) @ map post_row (take m (feed_posts fd))"
proof (cases fd)
  case Unreachable
  with assms show ?thesis by (auto simp: bluesky_try_def)
next
  case (Feed ps)
  show ?thesis
  proof (cases "ps = []")
    case True
    with Feed assms show ?thesis by (auto simp: bluesky_try_def)
  next
    case False
    obtain r1 f where pl: "posts_loop fs ps (kcsv s) = (r1, f)"
      by (cases "posts_loop fs ps (kcsv s)")
    with Feed False assms have "kcsv s' = f" by (auto simp: bluesky_try_def Let_def)
    with posts_loop_rows[OF pl] Feed show ?thesis by (auto simp: feed_posts_def)
  qed
qed

lemma bluesky_main_quits:
  assumes "f0 = None \<or> removable fs"
  shows "kquits (snd (bluesky_main fs fd f0)) = 1"
proof -
  obtain r s' where t: "bluesky_try fs fd (bluesky_start None) = (r, s')"
    by (cases "bluesky_try fs fd (bluesky_start None)")
  then have "kquits s' = 0"
    by (auto simp: bluesky_try_def bluesky_start_def Let_def split: feed.splits if_splits prod.splits)
  with t remove_output_ok[OF assms] show ?thesis by (simp add: bluesky_main_def)
qed


section \<open>The claims\<close>

subsection \<open>C1: a failing page\<close>

text \<open>
  C1 as the scripts have it. When fetching or extracting page \<open>p\<close> fails, the run stops
  at page \<open>p\<close>. In the books script (a page that is not good: the request raises, the
  page holds no book, or a field lookup of a book finds nothing) the exception ends the
  program: no page after \<open>p\<close> is fetched and no page from \<open>p\<close> on is reported done. In
  the quotes script (page \<open>p\<close> of the site holds a quote with a missing field, the old
  output was removed) the page loop is left: no page after \<open>p\<close> is scraped, fewer than
  \<open>p\<close> next-page clicks are made, the single handler prints one exception, nothing
  leaves the program and the driver is quit once. Neither script records the page as
  failed or goes on to page \<open>p + 1\<close>.
\<close>

theorem failing_page_stops_run:
  "(1 \<le> p \<and> p \<le> k \<and> \<not> good_page (w p) \<longrightarrow>
      fst (books_main fs w k f0) \<noteq> None \<and>
      (\<forall>q. p < q \<longrightarrow> q \<notin> set (fetched (snd (books_main fs w k f0)))) \<and>
      (\<forall>q. p \<le> q \<longrightarrow> q \<notin> set (pages_done (snd (books_main fs w k f0))))) \<and>
   (1 \<le> p \<and> p \<le> n \<and> page_at pg (p - 1) = Some pgp \<and>
    \<not> list_all good_quote (quotes pgp) \<and> (f0 = None \<or> removable fs) \<longrightarrow>
      fst (quotes_main fs (Some pg) n f0) = None \<and>
      qquits (snd (quotes_main fs (Some pg) n f0)) = 1 \<and>
      length (qprinted (snd (quotes_main fs (Some pg) n f0))) = 1 \<and>
      (\<forall>q. p < q \<longrightarrow> q \<notin> set (scraping (snd (quotes_main fs (Some pg) n f0)))) \<and>
      advances (snd (quotes_main fs (Some pg) n f0)) < p)"
proof (intro conjI impI)
  assume "1 \<le> p \<and> p \<le> k \<and> \<not> good_page (w p)"
  then have h: "1 \<le> p" "p \<le> k" "\<not> good_page (w p)" by simp_all
  from books_stop_at_failure[of p k w, OF h]
  show "fst (books_main fs w k f0) \<noteq> None"
    and "\<forall>q. p < q \<longrightarrow> q \<notin> set (fetched (snd (books_main fs w k f0)))"
    and "\<forall>q. p \<le> q \<longrightarrow> q \<notin> set (pages_done (snd (books_main fs w k f0)))"
    by blast+
next
  assume "1 \<le> p \<and> p \<le> n \<and> page_at pg (p - 1) = Some pgp \<and>
    \<not> list_all good_quote (quotes pgp) \<and> (f0 = None \<or> removable fs)"
  then have h: "1 \<le> p" "p \<le> n" "page_at pg (p - 1) = Some pgp"
    "\<not> list_all good_quote (quotes pgp)" "f0 = None \<or> removable fs"
    by simp_all
  from quotes_stop_at_failure[OF h]
  show "fst (quotes_main fs (Some pg) n f0) = None"
    and "qquits (snd (quotes_main fs (Some pg) n f0)) = 1"
    and "length (qprinted (snd (quotes_main fs (Some pg) n f0))) = 1"
    and "\<forall>q. p < q \<longrightarrow> q \<notin> set (scraping (snd (quotes_main fs (Some pg) n f0)))"
    and "advances (snd (quotes_main fs (Some pg) n f0)) < p"
    by blast+
qed

text \<open>
  The theorem at page 1 of two: the books site whose first request fails, and the quotes
  site whose first page holds a quote without author.
\<close>

theorem failing_page_stops_run_witness:
  "((1::nat) \<le> 1 \<and> (1::nat) \<le> 2 \<and> \<not> good_page (down_web 1)) \<and>
   (page_at site_bad (1 - 1) = Some site_bad \<and> \<not> list_all good_quote (quotes site_bad) \<and>
    (None = (None :: csv_file) \<or> removable ideal_fs)) \<and>
   fst (books_main ideal_fs down_web 2 None) \<noteq> None \<and>
   2 \<notin> set (fetched (snd (books_main ideal_fs down_web 2 None))) \<and>
   1 \<notin> set (pages_done (snd (books_main ideal_fs down_web 2 None))) \<and>
   2 \<notin> set (pages_done (snd (books_main ideal_fs down_web 2 None))) \<and>
   fst (quotes_main ideal_fs (Some site_bad) 2 None) = None \<and>
   qquits (snd (quotes_main ideal_fs (Some site_bad) 2 None)) = 1 \<and>
   length (qprinted (snd (quotes_main ideal_fs (Some site_bad) 2 None))) = 1 \<and>
   2 \<notin> set (scraping (snd (quotes_main ideal_fs (Some site_bad) 2 None))) \<and>
   advances (snd (quotes_main ideal_fs (Some site_bad) 2 None)) < 1"
proof -
  have b: "(1::nat) \<le> 1 \<and> (1::nat) \<le> 2 \<and> \<not> good_page (down_web 1)"
    by (simp add: good_page_def down_web_def)
  have q: "page_at site_bad (1 - 1) = Some site_bad \<and>
      \<not> list_all good_quote (quotes site_bad) \<and> (None = (None :: csv_file) \<or> removable ideal_fs)"
    by (simp add: site_bad_def good_quote_def quote_fields_def quote_a_def quote_anon_def)
  from failing_page_stops_run
    [where p = 1 and k = 2 and w = down_web and fs = ideal_fs and ?f0.0 = None
       and n = 2 and pg = site_bad and pgp = site_bad]
    b q
  show ?thesis by (metis one_less_numeral_iff semiring_norm(76) one_le_numeral)
qed

text \<open>
  C1 as stated fails. Two pages are asked for and the first request raises: the books
  script ends with the exception after fetching page 1 only, although page 2 is good.
  The quotes script, on a site whose first page holds a quote without author, writes the
  one row before it, prints the exception and quits, and never scrapes page 2.
\<close>

theorem failing_page_stops_run_counterexample:
  "books_main ideal_fs down_web 2 None =
     (Some RequestException, \<lparr>bcsv = None, fetched = [1], pages_done = []\<rparr>) \<and>
   good_page (down_web 2) \<and>
   quotes_main ideal_fs (Some site_bad) 2 None =
     (None, \<lparr>qcsv = Some [einstein_row],
             scraping = [1], advances = 0, qprinted = [NoSuchElementException], qquits = 1\<rparr>)"
  by (simp add: run_defs demo_defs good_page_def good_book_def upt_rec)


subsection \<open>C2: the header row\<close>

text \<open>
  C2 as the scripts have it. In the books script, as soon as one page is reported done
  the output file is the header row \<open>[Title, Price, Rating]\<close> followed by data rows
  only: the rows of a non-empty prefix of the site's books, all good, in page order; the
  header is there once, at the top. The quotes and Bluesky scripts write no header: once
  the old output is removed their files hold data rows only, the rows of a prefix of the
  quotes of the first \<open>n\<close> pages, respectively of the posts of the feed.
\<close>

theorem header_only_in_books:
  "(pages_done (snd (books_main fs w k f0)) \<noteq> [] \<longrightarrow>
      (\<exists>m. take m (site_books w k) \<noteq> [] \<and>
           bcsv (snd (books_main fs w k f0)) = Some (header # map book_row (take m (site_books w k))) \<and>
           list_all good_book (take m (site_books w k)))) \<and>
   (f0 = None \<or> removable fs \<longrightarrow>
      (\<exists>m. rows_of (qcsv (snd (quotes_main fs entry n f0))) =
              map quote_row (take m (reachable_quotes entry n))) \<and>
      (\<exists>m. rows_of (kcsv (snd (bluesky_main fs fd f0))) = map post_row (take m (feed_posts fd))))"
proof (intro conjI impI)
  assume "pages_done (snd (books_main fs w k f0)) \<noteq> []"
  then show "\<exists>m. take m (site_books w k) \<noteq> [] \<and>
           bcsv (snd (books_main fs w k f0)) = Some (header # map book_row (take m (site_books w k))) \<and>
           list_all good_book (take m (site_books w k))"
    by (rule books_header_once)
next
  assume rm: "f0 = None \<or> removable fs"
  obtain r s' where t: "quotes_try fs entry n (quotes_start None) = (r, s')"
    by (cases "quotes_try fs entry n (quotes_start None)")
  from quotes_try_rows[OF t] obtain m where
    "rows_of (qcsv s') = map quote_row (take m (reachable_quotes entry n))"
    by (auto simp: quotes_start_def rows_of_def reachable_quotes_def)
  then show "\<exists>m. rows_of (qcsv (snd (quotes_main fs entry n f0))) =
              map quote_row (take m (reachable_quotes entry n))"
    unfolding quotes_main_unfold[OF rm] t by (cases r) (auto simp: quotes_except_def)
next
  assume rm: "f0 = None \<or> removable fs"
  obtain r s' where t: "bluesky_try fs fd (bluesky_start None) = (r, s')"
    by (cases "bluesky_try fs fd (bluesky_start None)")
  from bluesky_try_rows[OF t] obtain m where
    "rows_of (kcsv s') = map post_row (take m (feed_posts fd))"
    by (auto simp: bluesky_start_def rows_of_def)
  then show "\<exists>m. rows_of (kcsv (snd (bluesky_main fs fd f0))) = map post_row (take m (feed_posts fd))"
    using t remove_output_ok[OF rm] by (auto simp: bluesky_main_def)
qed

theorem header_only_in_books_witness:
  "pages_done (snd (books_main ideal_fs one_book_web 2 (Some [old_row]))) \<noteq> [] \<and>
   (Some [old_row] = None \<or> removable ideal_fs) \<and>
   (\<exists>m. take m (site_books one_book_web 2) \<noteq> [] \<and>
        bcsv (snd (books_main ideal_fs one_book_web 2 (Some [old_row]))) =
          Some (header # map book_row (take m (site_books one_book_web 2))) \<and>
        list_all good_book (take m (site_books one_book_web 2))) \<and>
   (\<exists>m. rows_of (qcsv (snd (quotes_main ideal_fs (Some site4) 1 (Some [old_row])))) =
          map quote_row (take m (reachable_quotes (Some site4) 1))) \<and>
   (\<exists>m. rows_of (kcsv (snd (bluesky_main ideal_fs (Feed [post_a]) (Some [old_row])))) =
          map post_row (take m (feed_posts (Feed [post_a]))))"
proof -
  have d: "pages_done (snd (books_main ideal_fs one_book_web 2 (Some [old_row]))) \<noteq> []"
    by (simp add: run_defs demo_defs upt_rec)
  have r: "Some [old_row] = None \<or> removable ideal_fs"
    by (simp add: ideal_fs_def)
  from header_only_in_books
    [where fs = ideal_fs and w = one_book_web and k = 2 and ?f0.0 = "Some [old_row]"
       and entry = "Some site4" and n = 1 and fd = "Feed [post_a]"]
    d r
  show ?thesis by blast
qed

text \<open>
  C2 as stated fails on the quotes script. One page is scraped with success (its quote is
  written, the click works, nothing is printed by the handler), and the file is the one
  data row: there is no header row in front of it.
\<close>

theorem header_only_in_books_counterexample:
  "quotes_main ideal_fs (Some site4) 1 None =
     (None, \<lparr>qcsv = Some [einstein_row],
             scraping = [1], advances = 1, qprinted = [], qquits = 1\<rparr>)"
  by (simp add: run_defs demo_defs upt_rec)


subsection \<open>C3: a field whose selector matches nothing\<close>

text \<open>
  C3 as the scripts have it, on a file system that accepts every append. In the Bluesky
  script every post gives its row whatever is missing, and a name or time lookup that
  finds nothing gives the field \<open>Unknown\<close>. In the books and the quotes script a field
  lookup that finds nothing raises: no row is produced for that element, the loop stops
  there with the rows of the elements before it, and the elements after it are not
  looked at.
\<close>

theorem missing_field_behaviour:
  assumes "\<forall>rs. writable fs rs"
  shows
    "posts_loop fs ps f = (None, if ps = [] then f else Some (rows_of f @ map post_row ps)) \<and>
     (name_elem p = None \<longrightarrow> post_row p ! 0 = ''Unknown'') \<and>
     (time_elem p = None \<longrightarrow> post_row p ! 1 = ''Unknown'') \<and>
     (title_anchor b = None \<or> price_elem b = None \<or> rating_elem b = None \<longrightarrow>
        isl (book_fields b) \<and>
        (list_all good_book bs \<longrightarrow>
           books_loop fs (bs @ b # bs') f =
             (Some (projl (book_fields b)), with_header f (map book_row bs)))) \<and>
     (quote_text q = None \<or> quote_author q = None \<longrightarrow>
        isl (quote_fields q) \<and>
        (list_all good_quote qs \<longrightarrow>
           quotes_loop fs (qs @ q # qs') f =
             (Some (projl (quote_fields q)),
              if qs = [] then f else Some (rows_of f @ map quote_row qs))))"
proof (intro conjI impI)
  show "posts_loop fs ps f = (None, if ps = [] then f else Some (rows_of f @ map post_row ps))"
    using assms by (intro posts_loop_ok) simp
  show "post_row p ! 0 = ''Unknown''" if "name_elem p = None"
    using that by (simp add: post_row_def post_name_def)
  show "post_row p ! 1 = ''Unknown''" if "time_elem p = None"
    using that by (simp add: post_row_def post_time_def)
next
  assume m: "title_anchor b = None \<or> price_elem b = None \<or> rating_elem b = None"
  from book_missing_field[OF m] show bad: "isl (book_fields b)" by (simp add: good_book_def)
  assume g: "list_all good_book bs"
  from bad obtain e where e: "book_fields b = Inl e" by (cases "book_fields b") auto
  have "books_loop fs (bs @ b # bs') f = books_loop fs (b # bs') (with_header f (map book_row bs))"
    using g assms by (intro books_loop_append) simp_all
  with e show "books_loop fs (bs @ b # bs') f =
             (Some (projl (book_fields b)), with_header f (map book_row bs))"
    by simp
next
  assume m: "quote_text q = None \<or> quote_author q = None"
  from quote_missing_field[OF m] show bad: "isl (quote_fields q)" by (simp add: good_quote_def)
  assume g: "list_all good_quote qs"
  from bad obtain e where e: "quote_fields q = Inl e" by (cases "quote_fields q") auto
  have "quotes_loop fs (qs @ q # qs') f =
        quotes_loop fs (q # qs') (if qs = [] then f else Some (rows_of f @ map quote_row qs))"
    using g assms by (intro quotes_loop_append) simp_all
  with e show "quotes_loop fs (qs @ q # qs') f =
             (Some (projl (quote_fields q)),
              if qs = [] then f else Some (rows_of f @ map quote_row qs))"
    by simp
qed

theorem missing_field_behaviour_witness:
  "(\<forall>rs. writable ideal_fs rs) \<and>
   posts_loop ideal_fs [post_anon] None =
     (None, if [post_anon] = [] then None else Some (rows_of None @ map post_row [post_anon])) \<and>
   (name_elem post_anon = None \<and> post_row post_anon ! 0 = ''Unknown'') \<and>
   (time_elem post_anon = None \<and> post_row post_anon ! 1 = ''Unknown'') \<and>
   (price_elem book_no_price = None \<and> isl (book_fields book_no_price) \<and>
    list_all good_book [book_a] \<and>
    books_loop ideal_fs ([book_a] @ book_no_price # [book_a]) None =
      (Some (projl (book_fields book_no_price)), with_header None (map book_row [book_a]))) \<and>
   (quote_author quote_anon = None \<and> isl (quote_fields quote_anon) \<and>
    list_all good_quote [quote_a] \<and>
    quotes_loop ideal_fs ([quote_a] @ quote_anon # [quote_a]) None =
      (Some (projl (quote_fields quote_anon)),
       if [quote_a] = [] then None else Some (rows_of None @ map quote_row [quote_a])))"
proof -
  have w: "\<forall>rs. writable ideal_fs rs" by (simp add: ideal_fs_def)
  have m: "name_elem post_anon = None" "time_elem post_anon = None"
    "price_elem book_no_price = None" "quote_author quote_anon = None"
    by (simp_all add: post_anon_def book_no_price_def quote_anon_def)
  have g: "list_all good_book [book_a]" "list_all good_quote [quote_a]"
    by (simp_all add: good_book_def good_quote_def book_fields_def quote_fields_def
        book_a_def quote_a_def)
  from missing_field_behaviour
    [OF w, where ps = "[post_anon]" and f = None and p = post_anon and b = book_no_price
       and bs = "[book_a]" and bs' = "[book_a]" and q = quote_anon and qs = "[quote_a]"
       and qs' = "[quote_a]"]
    m g
  show ?thesis using w by blast
qed

text \<open>
  C3 as stated fails. A book whose price lookup finds nothing gives no record with an
  empty price: the lookup raises AttributeError and the book loop ends without a row.
  A Bluesky post without name and time gets \<open>Unknown\<close> in both fields, not the empty
  string.
\<close>

theorem missing_field_behaviour_counterexample:
  "price_elem book_no_price = None \<and>
   book_fields book_no_price = Inl AttributeError \<and>
   books_loop ideal_fs [book_no_price] None = (Some AttributeError, None) \<and>
   post_row post_anon = [''Unknown'', ''Unknown'', ''hi'']"
  by (simp add: run_defs demo_defs strip_def is_space_def)


subsection \<open>C4: next-page clicks\<close>

text \<open>
  C4 on the code, at the script's own page count \<open>quotes_n = 3\<close>. The click of lines 38
  to 41 comes before the test \<^verbatim>\<open>if page >= n\<close>, so it is made on the last page too.
  On a site of four pages the run scrapes pages 1 to 3 and clicks three times, not
  twice. On a site of exactly three pages the third click finds no link and raises, and
  the handler prints an exception although all three pages were scraped.
\<close>

theorem quotes_clicks_on_last_page:
  "quotes_main ideal_fs (Some site4) quotes_n None =
     (None, \<lparr>qcsv = Some [einstein_row, einstein_row, einstein_row],
             scraping = [1, 2, 3], advances = 3, qprinted = [], qquits = 1\<rparr>) \<and>
   quotes_main ideal_fs (Some site3) quotes_n None =
     (None, \<lparr>qcsv = Some [einstein_row, einstein_row, einstein_row],
             scraping = [1, 2, 3], advances = 3, qprinted = [NoSuchElementException],
             qquits = 1\<rparr>)"
  by (simp add: run_defs demo_defs upt_rec)


subsection \<open>C6: a second run on the same path\<close>

text \<open>
  C6. A run that finds the output of an earlier run removes it before anything is
  written: when the removal succeeds, each of the three scripts ends in exactly the state
  of a run that found no file, so the file holds rows of this run only. When the removal
  is refused the script ends there and the old file is left as it was. In both cases the
  file never holds rows of two runs.
\<close>

theorem rerun_discards_old_output:
  "(removable fs \<longrightarrow>
      books_main fs w k (Some old) = books_main fs w k None \<and>
      quotes_main fs entry n (Some old) = quotes_main fs entry n None \<and>
      bluesky_main fs fd (Some old) = bluesky_main fs fd None) \<and>
   (\<not> removable fs \<longrightarrow>
      bcsv (snd (books_main fs w k (Some old))) = Some old \<and>
      qcsv (snd (quotes_main fs entry n (Some old))) = Some old \<and>
      kcsv (snd (bluesky_main fs fd (Some old))) = Some old)"
  by (simp add: books_main_def quotes_main_def bluesky_main_def remove_output_def
      quotes_start_def bluesky_start_def)

theorem rerun_discards_old_output_witness:
  "removable ideal_fs \<and> \<not> removable locked_fs \<and>
   books_main ideal_fs one_book_web 2 (Some [old_row]) = books_main ideal_fs one_book_web 2 None \<and>
   quotes_main ideal_fs (Some site4) 3 (Some [old_row]) = quotes_main ideal_fs (Some site4) 3 None \<and>
   bluesky_main ideal_fs (Feed [post_a]) (Some [old_row]) = bluesky_main ideal_fs (Feed [post_a]) None \<and>
   bcsv (snd (books_main locked_fs one_book_web 2 (Some [old_row]))) = Some [old_row] \<and>
   qcsv (snd (quotes_main locked_fs (Some site4) 3 (Some [old_row]))) = Some [old_row] \<and>
   kcsv (snd (bluesky_main locked_fs (Feed [post_a]) (Some [old_row]))) = Some [old_row]"
proof -
  have r: "removable ideal_fs" "\<not> removable locked_fs"
    by (simp_all add: ideal_fs_def locked_fs_def)
  from rerun_discards_old_output
    [where fs = ideal_fs and w = one_book_web and k = 2 and old = "[old_row]"
       and entry = "Some site4" and n = 3 and fd = "Feed [post_a]"]
    rerun_discards_old_output
    [where fs = locked_fs and w = one_book_web and k = 2 and old = "[old_row]"
       and entry = "Some site4" and n = 3 and fd = "Feed [post_a]"]
    r
  show ?thesis by blast
qed


subsection \<open>C7: the driver is quit\<close>

text \<open>
  Inside the \<^verbatim>\<open>try\<close> the release holds: once the old output is removed, both browser
  scripts call \<^verbatim>\<open>driver.quit()\<close> exactly once, whatever the site, the file system
  and the page count do.
\<close>

lemma quit_once_after_removal:
  assumes "f0 = None \<or> removable fs"
  shows "qquits (snd (quotes_main fs entry n f0)) = 1 \<and> kquits (snd (bluesky_main fs fd f0)) = 1"
proof -
  obtain r s' where t: "quotes_try fs entry n (quotes_start None) = (r, s')"
    by (cases "quotes_try fs entry n (quotes_start None)")
  from quotes_try_log[OF t] have "qquits s' = 0" by (simp add: quotes_start_def)
  then have "qquits (snd (quotes_main fs entry n f0)) = 1"
    unfolding quotes_main_unfold[OF assms] t by (cases r) (simp_all add: quotes_except_def)
  with bluesky_main_quits[OF assms] show ?thesis by simp
qed

text \<open>
  C7 on the code. The removal of the old output stands between the creation of the
  driver and the \<^verbatim>\<open>try\<close> (lines 14 to 20 of the quotes script, 16 to 22 of the
  Bluesky script). When the old file exists and \<^verbatim>\<open>os.remove\<close> raises, the exception
  leaves the program in front of the \<^verbatim>\<open>try\<close>: \<^verbatim>\<open>driver.quit()\<close> is never called.
\<close>

theorem driver_not_quit_when_removal_fails:
  "quotes_main locked_fs (Some site4) quotes_n (Some [old_row]) =
     (Some OSError, \<lparr>qcsv = Some [old_row], scraping = [], advances = 0, qprinted = [],
                     qquits = 0\<rparr>) \<and>
   bluesky_main locked_fs (Feed [post_a]) (Some [old_row]) =
     (Some OSError, \<lparr>kcsv = Some [old_row], found = None, kquits = 0\<rparr>)"
  by (simp add: run_defs demo_defs)


subsection \<open>C8: a books run without failure\<close>

text \<open>
  C8 as the script has it. For every page count \<open>k \<ge> 1\<close>, a books run in which every
  page is good (it is fetched, holds at least one book, and every book gives its row),
  the old output can be removed and every append is accepted, fetches exactly the pages
  1 to \<open>k\<close>, each once and in ascending order, reports exactly these \<open>k\<close> pages done, in
  that order, ends without exception, and leaves the header followed by the rows of all
  pages in page order.
\<close>

theorem books_run_all_pages:
  assumes "1 \<le> k"
    and "\<forall>n \<in> {1..k}. good_page (w n)"
    and "f0 = None \<or> removable fs"
    and "\<forall>rs. writable fs rs"
  shows "books_main fs w k f0 =
           (None, \<lparr>bcsv = Some (header # concat (map (page_rows w) [1..<k + 1])),
                   fetched = [1..<k + 1], pages_done = [1..<k + 1]\<rparr>)
         \<and> length (pages_done (snd (books_main fs w k f0))) = k"
proof -
  have rm: "remove_output fs f0 = Inr None"
    using assms(3) by (auto simp: remove_output_def split: option.splits)
  have all: "list_all (\<lambda>n. good_page (w n)) [1..<k + 1]"
    using assms(2) by (auto simp: list_all_iff)
  have ne: "concat (map (page_rows w) [1..<k + 1]) \<noteq> []"
  proof -
    have "(1::nat) \<in> set [1..<k + 1]" using assms(1) by auto
    moreover have "page_rows w 1 \<noteq> []"
      using assms(1,2) by (intro good_page_rows_ne) simp
    ultimately show ?thesis unfolding concat_eq_Nil_conv set_map by blast
  qed
  have wh: "with_header None rs = Some (header # rs)" if "rs \<noteq> []" for rs
    using that by (simp add: with_header_def rows_of_def)
  have "books_main fs w k f0 =
     (None, \<lparr>bcsv = with_header None (concat (map (page_rows w) [1..<k + 1])),
                   fetched = [1..<k + 1], pages_done = [1..<k + 1]\<rparr>)"
    using pages_loop_ok[OF _ all, of fs] assms(4) rm by (simp add: books_main_def del: upt_Suc)
  then have main: "books_main fs w k f0 =
     (None, \<lparr>bcsv = Some (header # concat (map (page_rows w) [1..<k + 1])),
                   fetched = [1..<k + 1], pages_done = [1..<k + 1]\<rparr>)"
    by (simp only: wh[OF ne])
  show ?thesis unfolding main by (simp del: upt_Suc)
qed

theorem books_run_all_pages_witness:
  "(1::nat) \<le> 2 \<and>
   good_page (one_book_web 1) \<and> good_page (one_book_web 2) \<and>
   (Some [old_row] = None \<or> removable ideal_fs) \<and>
   (\<forall>rs. writable ideal_fs rs) \<and>
   books_main ideal_fs one_book_web 2 (Some [old_row]) =
     (None, \<lparr>bcsv = Some (header # concat (map (page_rows one_book_web) [1..<2 + 1])),
             fetched = [1..<2 + 1], pages_done = [1..<2 + 1]\<rparr>) \<and>
   length (pages_done (snd (books_main ideal_fs one_book_web 2 (Some [old_row])))) = 2"
proof -
  have k: "(1::nat) \<le> 2" by simp
  have g: "\<forall>n \<in> {1..2}. good_page (one_book_web n)"
    by (simp add: good_page_def good_book_def book_fields_def one_book_web_def book_a_def)
  have r: "Some [old_row] = None \<or> removable ideal_fs" by (simp add: ideal_fs_def)
  have w: "\<forall>rs. writable ideal_fs rs" by (simp add: ideal_fs_def)
  from books_run_all_pages[OF k g r w] k g r w show ?thesis by simp
qed

text \<open>
  C8 as stated fails on a page without books. With one page asked for, the fetch
  succeeds and no record extraction fails (there is no record), yet
  \<^verbatim>\<open>print(books[0])\<close> raises IndexError: no page is reported done.
\<close>

theorem books_run_all_pages_counterexample:
  "empty_web 1 = Html [] \<and>
   books_main ideal_fs empty_web 1 None =
     (Some IndexError, \<lparr>bcsv = None, fetched = [1], pages_done = []\<rparr>)"
  by (simp add: run_defs demo_defs upt_rec)


subsection \<open>C9: one row per post\<close>

text \<open>
  C9. In the Bluesky script, when the feed shows the posts \<open>ps\<close> (at least one, so that
  the wait succeeds), the old output can be removed and every append is accepted, the
  file ends as exactly one row per post, in the order of the posts; every row has the
  three fields name, time, text in this order, the name and the time being \<open>Unknown\<close>
  when their lookup finds nothing; no exception leaves the program and the driver is
  quit once.
\<close>

theorem bluesky_one_row_per_post:
  assumes "f0 = None \<or> removable fs" "\<forall>rs. writable fs rs" "ps \<noteq> []"
  shows "bluesky_main fs (Feed ps) f0 =
           (None, \<lparr>kcsv = Some (map post_row ps), found = Some (length ps), kquits = 1\<rparr>) \<and>
         (\<forall>p \<in> set ps.
            post_row p =
              [case name_elem p of None \<Rightarrow> ''Unknown'' | Some t \<Rightarrow> strip t,
               case time_elem p of None \<Rightarrow> ''Unknown'' | Some a \<Rightarrow> a,
               strip (post_text p)] \<and>
            length (post_row p) = 3)"
proof -
  have "posts_loop fs ps None = (None, Some (map post_row ps))"
    using posts_loop_ok[of fs ps None] assms(2,3) by (simp add: rows_of_def)
  then have "bluesky_main fs (Feed ps) f0 =
           (None, \<lparr>kcsv = Some (map post_row ps), found = Some (length ps), kquits = 1\<rparr>)"
    using remove_output_ok[OF assms(1)] assms(3)
    by (simp add: bluesky_main_def bluesky_try_def bluesky_start_def)
  then show ?thesis by (simp add: post_row_def post_name_def post_time_def)
qed

theorem bluesky_one_row_per_post_witness:
  "(Some [old_row] = None \<or> removable ideal_fs) \<and>
   (\<forall>rs. writable ideal_fs rs) \<and>
   [post_a, post_anon] \<noteq> [] \<and>
   bluesky_main ideal_fs (Feed [post_a, post_anon]) (Some [old_row]) =
     (None, \<lparr>kcsv = Some (map post_row [post_a, post_anon]),
             found = Some (length [post_a, post_anon]), kquits = 1\<rparr>) \<and>
   post_row post_anon =
     [case name_elem post_anon of None \<Rightarrow> ''Unknown'' | Some t \<Rightarrow> strip t,
      case time_elem post_anon of None \<Rightarrow> ''Unknown'' | Some a \<Rightarrow> a,
      strip (post_text post_anon)] \<and>
   length (post_row post_anon) = 3"
proof -
  have r: "Some [old_row] = None \<or> removable ideal_fs" by (simp add: ideal_fs_def)
  have w: "\<forall>rs. writable ideal_fs rs" by (simp add: ideal_fs_def)
  have n: "[post_a, post_anon] \<noteq> []" by simp
  from bluesky_one_row_per_post[OF r w n] r w n show ?thesis by simp
qed


subsection \<open>C10: exceptions in the quotes script\<close>

text \<open>
  C10. In the quotes script, once the old output is removed (the removal stands in front
  of the \<^verbatim>\<open>try\<close> and is none of navigation, extraction and writing), no exception
  leaves the program, whatever the site, the file system and the page count do: an
  exception raised in the \<^verbatim>\<open>try\<close> is printed by the handler, once, and nothing is
  printed otherwise; the driver is quit once; and the file is the one the \<^verbatim>\<open>try\<close>
  left, untouched by handler and \<^verbatim>\<open>finally\<close>: the rows of the good quotes handled
  before the exception, a prefix of the quotes of the first \<open>n\<close> pages in document
  order.
\<close>

theorem quotes_exceptions_contained:
  assumes "f0 = None \<or> removable fs"
  shows "fst (quotes_main fs entry n f0) = None \<and>
         qquits (snd (quotes_main fs entry n f0)) = 1 \<and>
         qprinted (snd (quotes_main fs entry n f0)) =
           (case fst (quotes_try fs entry n (quotes_start None)) of None \<Rightarrow> [] | Some e \<Rightarrow> [e]) \<and>
         qcsv (snd (quotes_main fs entry n f0)) =
           qcsv (snd (quotes_try fs entry n (quotes_start None))) \<and>
         (\<exists>m. rows_of (qcsv (snd (quotes_main fs entry n f0))) =
                 map quote_row (take m (reachable_quotes entry n)) \<and>
               list_all good_quote (take m (reachable_quotes entry n)))"
proof -
  obtain r s' where t: "quotes_try fs entry n (quotes_start None) = (r, s')"
    by (cases "quotes_try fs entry n (quotes_start None)")
  from quotes_try_log[OF t] have lg: "qprinted s' = []" "qquits s' = 0"
    by (simp_all add: quotes_start_def)
  from quotes_try_rows[OF t] obtain m where
    m: "rows_of (qcsv s') = map quote_row (take m (reachable_quotes entry n))"
       "list_all good_quote (take m (reachable_quotes entry n))"
    by (auto simp: quotes_start_def rows_of_def reachable_quotes_def)
  show ?thesis
    unfolding quotes_main_unfold[OF assms] t
    using lg m by (cases r) (auto simp: quotes_except_def)
qed

theorem quotes_exceptions_contained_witness:
  "(Some [old_row] = None \<or> removable ideal_fs) \<and>
   fst (quotes_main ideal_fs (Some site_bad) 2 (Some [old_row])) = None \<and>
   qquits (snd (quotes_main ideal_fs (Some site_bad) 2 (Some [old_row]))) = 1 \<and>
   qprinted (snd (quotes_main ideal_fs (Some site_bad) 2 (Some [old_row]))) =
     (case fst (quotes_try ideal_fs (Some site_bad) 2 (quotes_start None)) of
        None \<Rightarrow> [] | Some e \<Rightarrow> [e]) \<and>
   qcsv (snd (quotes_main ideal_fs (Some site_bad) 2 (Some [old_row]))) =
     qcsv (snd (quotes_try ideal_fs (Some site_bad) 2 (quotes_start None))) \<and>
   (\<exists>m. rows_of (qcsv (snd (quotes_main ideal_fs (Some site_bad) 2 (Some [old_row])))) =
           map quote_row (take m (reachable_quotes (Some site_bad) 2)) \<and>
         list_all good_quote (take m (reachable_quotes (Some site_bad) 2)))"
proof -
  have r: "Some [old_row] = None \<or> removable ideal_fs" by (simp add: ideal_fs_def)
  from quotes_exceptions_contained[OF r, of "Some site_bad" 2] r show ?thesis by blast
qed

end
